theory Spec2Isabelle
  imports Complex_Main
begin

section \<open>JavaScript strings\<close>

text \<open>
  A string is a list of characters. A \<^typ>\<open>char\<close> stands for one code point below 256
  (Latin-1), so that \<open>Array.from\<close>, \<open>trim\<close>, \<open>toLowerCase\<close> and the character classes of the
  regular expressions can be written out exactly on it. Text outside that range is outside the model.
\<close>

definition B64_IMAGE_START :: string where
  "B64_IMAGE_START = ''B64_IMAGE_START''"

definition B64_IMAGE_END :: string where
  "B64_IMAGE_END = ''B64_IMAGE_END''"

definition isWhiteSpace :: "char \<Rightarrow> bool" where
  \<comment> \<open>WhiteSpace and LineTerminator of ECMAScript below 256: TAB, LF, VT, FF, CR, SP, NBSP;
      also the class \<open>\s\<close> of a regular expression.\<close>
  "isWhiteSpace c = (c \<in> set [CHR 0x09, CHR 0x0A, CHR 0x0B, CHR 0x0C, CHR 0x0D, CHR 0x20, CHR 0xA0])"

definition trim :: "string \<Rightarrow> string" where
  "trim s = rev (dropWhile isWhiteSpace (rev (dropWhile isWhiteSpace s)))"

definition toLowerChar :: "char \<Rightarrow> char" where
  "toLowerChar c =
     (let n = (of_char c :: nat)
      in if (65 \<le> n \<and> n \<le> 90) \<or> (192 \<le> n \<and> n \<le> 222 \<and> n \<noteq> 215)
         then char_of (n + 32) else c)"

definition toLowerCase :: "string \<Rightarrow> string" where
  "toLowerCase s = map toLowerChar s"

definition startsWith :: "string \<Rightarrow> string \<Rightarrow> bool" where
  "startsWith s p = (take (length p) s = p)"


fun includes_str :: "string \<Rightarrow> string \<Rightarrow> bool" where
  "includes_str [] p = (p = [])"
| "includes_str (c # cs) p = (startsWith (c # cs) p \<or> includes_str cs p)"

fun splitAcc :: "char \<Rightarrow> string \<Rightarrow> string \<Rightarrow> string list" where
  "splitAcc d acc [] = [rev acc]"
| "splitAcc d acc (c # cs) =
     (if c = d then rev acc # splitAcc d [] cs else splitAcc d (c # acc) cs)"

definition split :: "string \<Rightarrow> char \<Rightarrow> string list" where
  \<comment> \<open>\<open>s.split(d)\<close> for a one-character separator\<close>
  "split s d = splitAcc d [] s"

fun indexOf :: "'a list \<Rightarrow> 'a \<Rightarrow> nat option" where
  \<comment> \<open>\<open>None\<close> is the \<open>-1\<close> of JavaScript\<close>
  "indexOf [] x = None"
| "indexOf (y # ys) x =
     (if y = x then Some 0 else map_option Suc (indexOf ys x))"

definition join :: "string list \<Rightarrow> string" where
  \<comment> \<open>\<open>xs.join("")\<close>\<close>
  "join xs = concat xs"

section \<open>Grid matrix decoder (components/Grid20x20.tsx)\<close>

definition GRID_ROWS :: nat where "GRID_ROWS = 10"
definition GRID_COLS :: nat where "GRID_COLS = 10"
definition START_ROW :: nat where "START_ROW = GRID_ROWS - 1"
definition START_COL :: nat where "START_COL = 0"

datatype Direction = N | E | S | W

record RoverPose =
  row :: nat
  col :: nat
  dir :: Direction

record Cell =
  visited :: bool
  obstacle :: bool

definition initialPose :: RoverPose where
  "initialPose = \<lparr>row = START_ROW, col = START_COL, dir = N\<rparr>"

definition emptyCell :: Cell where
  "emptyCell = \<lparr>visited = False, obstacle = False\<rparr>"

definition createEmptyGrid :: "Cell list list" where
  "createEmptyGrid = replicate GRID_ROWS (replicate GRID_COLS emptyCell)"

definition codeToDirection :: "nat \<Rightarrow> Direction" where
  "codeToDirection code =
     (if code = 2 then N else if code = 3 then E else if code = 4 then W
      else if code = 5 then S else N)"

definition Number_char :: "char \<Rightarrow> nat option" where
  \<comment> \<open>\<open>Number(ch)\<close> of a one-character string: a decimal digit is its value, a white space
      character is 0 (the string trims to the empty one), anything else is NaN (\<open>None\<close>).\<close>
  "Number_char ch =
     (let n = (of_char ch :: nat)
      in if 48 \<le> n \<and> n \<le> 57 then Some (n - 48)
         else if isWhiteSpace ch then Some 0 else None)"

fun forEachChar :: "nat \<Rightarrow> nat \<Rightarrow> string \<Rightarrow> Cell list \<times> RoverPose option
    \<Rightarrow> Cell list \<times> RoverPose option" where
  \<comment> \<open>the callback of \<open>chars.forEach((ch, c) => ...)\<close>, from index \<open>c\<close> on\<close>
  "forEachChar visualRow c [] (rowCells, roverPose) = (rowCells, roverPose)"
| "forEachChar visualRow c (ch # chars) (rowCells, roverPose) =
     (let v = Number_char ch
      in if v = Some 1
           then forEachChar visualRow (c + 1) chars
                  (rowCells @ [\<lparr>visited = False, obstacle = True\<rparr>], roverPose)
         else if (case v of None \<Rightarrow> False | Some n \<Rightarrow> 2 \<le> n \<and> n \<le> 5)
           then forEachChar visualRow (c + 1) chars
                  (rowCells @ [\<lparr>visited = False, obstacle = False\<rparr>],
                   Some \<lparr>row = visualRow, col = c, dir = codeToDirection (the v)\<rparr>)
         else forEachChar visualRow (c + 1) chars
                  (rowCells @ [\<lparr>visited = False, obstacle = False\<rparr>], roverPose))"

function rowLoop :: "string list \<Rightarrow> nat \<Rightarrow> nat \<Rightarrow> Cell list list \<times> RoverPose option
    \<Rightarrow> Cell list list \<times> RoverPose option" where
  \<comment> \<open>\<open>for (let visualRow = 0; visualRow < numRows; visualRow++)\<close>, from \<open>visualRow\<close> on\<close>
  "rowLoop rowTokens numRows visualRow (grid, roverPose) =
     (if visualRow < numRows then
        (let tokenIndex = numRows - 1 - visualRow;
             rowStr = rowTokens ! tokenIndex;
             trimmed = trim rowStr
         in if trimmed = []
            then rowLoop rowTokens numRows (visualRow + 1)
                   (grid @ [replicate GRID_COLS \<lparr>visited = False, obstacle = False\<rparr>], roverPose)
            else (case forEachChar visualRow 0 trimmed ([], roverPose) of
                    (rowCells, roverPose') \<Rightarrow>
                      rowLoop rowTokens numRows (visualRow + 1) (grid @ [rowCells], roverPose')))
      else (grid, roverPose))"
  by pat_completeness auto
termination
  by (relation "measure (\<lambda>(rowTokens, numRows, visualRow, st). numRows - visualRow)") auto

declare rowLoop.simps [simp del]

definition parseMatrixLine :: "string \<Rightarrow> (Cell list list \<times> RoverPose option) option" where
  "parseMatrixLine line =
     (let parts = split line (CHR '','')
      in case indexOf parts ''M'' of
           None \<Rightarrow> None
         | Some idxM \<Rightarrow>
             (let rowTokens = drop (idxM + 1) parts
              in if length rowTokens = 0 then None
                 else (let numRows = min (length rowTokens) GRID_ROWS
                       in Some (rowLoop rowTokens numRows 0 ([], None)))))"

record GridState =
  grid :: "Cell list list"
  pose :: RoverPose

definition initialGridState :: GridState where
  "initialGridState = \<lparr>grid = createEmptyGrid, pose = initialPose\<rparr>"

definition applyMatrix :: "string \<Rightarrow> GridState \<Rightarrow> GridState" where
  "applyMatrix line st =
     (case parseMatrixLine line of
        None \<Rightarrow> st
      | Some (newGrid, newPose) \<Rightarrow>
          (case newPose of
             None \<Rightarrow> st\<lparr>grid := newGrid\<rparr>
           | Some p \<Rightarrow> st\<lparr>grid := newGrid, pose := p\<rparr>))"


text \<open>
  The readings of the decoder that the properties below compare with the loops above:
  the cell a character stands for, the poses the rover digits of a row announce, and two
  orders in which the row tokens can be visited.
\<close>

definition isRoverDigit :: "char \<Rightarrow> bool" where
  "isRoverDigit ch = (ch \<in> set ''2345'')"

definition dirOfDigit :: "char \<Rightarrow> Direction" where
  "dirOfDigit ch =
     (if ch = CHR ''3'' then E else if ch = CHR ''4'' then W
      else if ch = CHR ''5'' then S else N)"

definition cellOf :: "char \<Rightarrow> Cell" where
  "cellOf ch = \<lparr>visited = False, obstacle = (ch = CHR ''1'')\<rparr>"

definition decodeRow :: "string \<Rightarrow> Cell list" where
  "decodeRow t = (if trim t = [] then replicate GRID_COLS emptyCell else map cellOf (trim t))"

definition rowHits :: "nat \<Rightarrow> string \<Rightarrow> RoverPose list" where
  \<comment> \<open>the poses announced by the rover digits of display row \<open>v\<close>, left to right\<close>
  "rowHits v chars =
     [\<lparr>row = v, col = c, dir = dirOfDigit ch\<rparr>. (c, ch) \<leftarrow> enumerate 0 chars, isRoverDigit ch]"

definition scanHits :: "(nat \<times> string) list \<Rightarrow> RoverPose list" where
  \<comment> \<open>the poses announced along a scan that visits the (display row, token) pairs in the
      order of the list\<close>
  "scanHits rows = concat (map (\<lambda>(v, t). rowHits v (trim t)) rows)"

definition lastOr :: "'a option \<Rightarrow> 'a list \<Rightarrow> 'a option" where
  "lastOr d xs = (if xs = [] then d else Some (last xs))"

definition rowTokensOf :: "string \<Rightarrow> string list" where
  \<comment> \<open>the tokens after the first token \<open>M\<close>\<close>
  "rowTokensOf line =
     (case indexOf (split line (CHR '','')) ''M'' of
        None \<Rightarrow> []
      | Some idxM \<Rightarrow> drop (idxM + 1) (split line (CHR '','')))"

definition displayOrder :: "string list \<Rightarrow> (nat \<times> string) list" where
  \<comment> \<open>display rows from the top: the last used token first, token 0 last\<close>
  "displayOrder toks =
     (let n = min (length toks) GRID_ROWS in map (\<lambda>v. (v, toks ! (n - 1 - v))) [0..<n])"

definition storageOrder :: "string list \<Rightarrow> (nat \<times> string) list" where
  \<comment> \<open>storage-token order: token 0 first, the last used token last\<close>
  "storageOrder toks =
     (let n = min (length toks) GRID_ROWS in map (\<lambda>i. (n - 1 - i, toks ! i)) [0..<n])"

section \<open>Serial feed and image reassembly (lib/useWebSocketFeed.ts)\<close>

record ConsoleLine =
  ts :: rat
  line_text :: string  \<comment> \<open>the field \<open>text\<close>\<close>

record FeedState =
  consoleLines :: "ConsoleLine list"
  pending :: bool
  chunks :: "string list"
  lastImageDataUrl :: "string option"
  lastMatrixLine :: "string option"

definition initialFeedState :: FeedState where
  "initialFeedState =
     \<lparr>consoleLines = [], pending = False, chunks = [],
      lastImageDataUrl = None, lastMatrixLine = None\<rparr>"

definition DATA_URL_PREFIX :: string where
  "DATA_URL_PREFIX = ''data:image/jpeg;base64,''"

definition pushConsole :: "ConsoleLine list \<Rightarrow> ConsoleLine \<Rightarrow> ConsoleLine list" where
  \<comment> \<open>the updater given to \<open>setConsoleLines\<close>\<close>
  "pushConsole prev l =
     (let next = prev @ [l]
      in if length next > 2000 then drop (length next - 2000) next else next)"

definition handleSerialIn :: "rat \<Rightarrow> string \<Rightarrow> FeedState \<Rightarrow> FeedState \<times> string option" where
  \<comment> \<open>The \<open>serial_in\<close> branch of \<open>handleMessage\<close>, for the values \<open>ts\<close> (milliseconds,
      here \<open>ts_ms\<close>) and \<open>text\<close> (here \<open>textv\<close>) that the branch has computed from the
      message. The second component is the data URL given to \<open>setLastImageDataUrl\<close>, when
      the branch calls it.\<close>
  "handleSerialIn ts_ms textv s =
     (let s1 = s\<lparr>consoleLines := pushConsole (consoleLines s) \<lparr>ts = ts_ms, line_text = textv\<rparr>\<rparr>
      in if textv = B64_IMAGE_START then (s1\<lparr>pending := True, chunks := []\<rparr>, None)
         else if textv = B64_IMAGE_END then
           (if pending s1 \<and> length (chunks s1) > 0
            then (let base64 = join (chunks s1); dataUrl = DATA_URL_PREFIX @ base64
                  in (s1\<lparr>lastImageDataUrl := Some dataUrl, pending := False, chunks := []\<rparr>,
                      Some dataUrl))
            else (s1\<lparr>pending := False, chunks := []\<rparr>, None))
         else if pending s1 then (s1\<lparr>chunks := chunks s1 @ [trim textv]\<rparr>, None)
         else if startsWith textv ''RECV_ROVER_'' \<and> includes_str textv '',M,''
           then (s1\<lparr>lastMatrixLine := Some textv\<rparr>, None)
         else (s1, None))"

fun feed :: "FeedState \<Rightarrow> (rat \<times> string) list \<Rightarrow> FeedState" where
  \<comment> \<open>the state after a sequence of \<open>serial_in\<close> messages, each handled to completion\<close>
  "feed s [] = s"
| "feed s ((t, l) # ms) = feed (fst (handleSerialIn t l s)) ms"

fun images :: "FeedState \<Rightarrow> (rat \<times> string) list \<Rightarrow> string list" where
  \<comment> \<open>the data URLs emitted along the sequence, in order\<close>
  "images s [] = []"
| "images s ((t, l) # ms) =
     (case snd (handleSerialIn t l s) of None \<Rightarrow> [] | Some u \<Rightarrow> [u])
       @ images (fst (handleSerialIn t l s)) ms"

section \<open>Image recomputed from the console (App.tsx)\<close>

definition getLineText :: "ConsoleLine \<Rightarrow> string" where
  \<comment> \<open>a console line is an object whose \<open>text\<close> is a string\<close>
  "getLineText item = line_text item"

fun extractLoop :: "ConsoleLine list \<Rightarrow> bool \<times> string list \<times> string option \<Rightarrow> string option" where
  \<comment> \<open>the \<open>for\<close> loop over \<open>lines\<close>, on \<open>(capturing, buffer, lastImage)\<close>\<close>
  "extractLoop [] (capturing, buffer, lastImage) = lastImage"
| "extractLoop (item # items) (capturing, buffer, lastImage) =
     (let raw = trim (getLineText item)
      in if raw = [] then extractLoop items (capturing, buffer, lastImage)
         else if raw = B64_IMAGE_START then extractLoop items (True, [], lastImage)
         else if raw = B64_IMAGE_END then
           extractLoop items
             (False, buffer,
              if capturing \<and> length buffer > 0 then Some (join buffer) else lastImage)
         else if capturing then extractLoop items (capturing, buffer @ [raw], lastImage)
         else extractLoop items (capturing, buffer, lastImage))"

definition extractLastImageFromConsole :: "ConsoleLine list \<Rightarrow> string option" where
  "extractLastImageFromConsole lines = extractLoop lines (False, [], None)"

definition latestImageDataUrl :: "ConsoleLine list \<Rightarrow> string option" where
  \<comment> \<open>\<open>b64 ? `data:image/jpeg;base64,${b64}` : undefined\<close>\<close>
  "latestImageDataUrl consoleLines' =
     (case extractLastImageFromConsole consoleLines' of
        None \<Rightarrow> None
      | Some b64 \<Rightarrow> if b64 = [] then None else Some (DATA_URL_PREFIX @ b64))"

section \<open>Field resolution and rendering (components/TelemetryColumn.tsx)\<close>









definition norm :: "string \<Rightarrow> string" where
  \<comment> \<open>\<open>s.toLowerCase().replace(/[\s_\-]+/g, "")\<close>\<close>
  "norm s = filter (\<lambda>c. \<not> (isWhiteSpace c \<or> c = CHR ''_'' \<or> c = CHR ''-'')) (toLowerCase s)"

fun exactLoop :: "(string \<times> 'v) list \<Rightarrow> string list \<Rightarrow> 'v option option" where
  \<comment> \<open>\<open>for (const n of names) if (n in obj) return obj[n]\<close>; \<open>Some r\<close> when the loop
      returns \<open>r\<close>, \<open>None\<close> when it ends\<close>
  "exactLoop obj [] = None"
| "exactLoop obj (n # names) =
     (if n \<in> set (map fst obj) then Some (map_of obj n) else exactLoop obj names)"

fun setAll :: "(string \<Rightarrow> string) \<Rightarrow> string list \<Rightarrow> (string \<rightharpoonup> string) \<Rightarrow> (string \<rightharpoonup> string)" where
  \<comment> \<open>\<open>for (const k of keys) m.set(f(k), k)\<close>\<close>
  "setAll f [] m = m"
| "setAll f (k # keys) m = setAll f keys (m(f k \<mapsto> k))"

fun lookupLoop :: "(string \<Rightarrow> string) \<Rightarrow> (string \<rightharpoonup> string) \<Rightarrow> (string \<times> 'v) list
    \<Rightarrow> string list \<Rightarrow> 'v option option" where
  \<comment> \<open>\<open>for (const n of names) { const real = m.get(f(n)); if (real !== undefined) return obj[real] }\<close>\<close>
  "lookupLoop f m obj [] = None"
| "lookupLoop f m obj (n # names) =
     (case m (f n) of
        Some real_key \<Rightarrow> Some (map_of obj real_key)
      | None \<Rightarrow> lookupLoop f m obj names)"

definition getField :: "(string \<times> 'v) list \<Rightarrow> string list \<Rightarrow> 'v option" where
  "getField obj names =
     (let keys = map fst obj
      in case exactLoop obj names of
           Some r \<Rightarrow> r
         | None \<Rightarrow>
             (let lower = setAll toLowerCase keys Map.empty
              in case lookupLoop toLowerCase lower obj names of
                   Some r \<Rightarrow> r
                 | None \<Rightarrow>
                     (let normMap = setAll norm keys Map.empty
                      in case lookupLoop norm normMap obj names of
                           Some r \<Rightarrow> r
                         | None \<Rightarrow> None)))"





definition NAMES_vEsp :: "string list" where
  "NAMES_vEsp = [''V Esp'', ''V_Esp'', ''v_esp'', ''esp_v'', ''v_bus'', ''v_batt'', ''vbatt'']"



section \<open>Chart values (components/ChartsColumn.tsx)\<close>






section \<open>Relating the two image paths\<close>

text \<open>
  One step of the loop of \<open>extractLastImageFromConsole\<close>, the console line of a message,
  and the images that the loop finds along a list of lines.
\<close>

definition extractStep :: "ConsoleLine \<Rightarrow> bool \<times> string list \<times> string option
    \<Rightarrow> bool \<times> string list \<times> string option" where
  "extractStep item st =
     (case st of (capturing, buffer, lastImage) \<Rightarrow>
        (let raw = trim (getLineText item)
         in if raw = [] then (capturing, buffer, lastImage)
            else if raw = B64_IMAGE_START then (True, [], lastImage)
            else if raw = B64_IMAGE_END then
              (False, buffer,
               if capturing \<and> length buffer > 0 then Some (join buffer) else lastImage)
            else if capturing then (capturing, buffer @ [raw], lastImage)
            else (capturing, buffer, lastImage)))"

definition asConsoleLine :: "rat \<times> string \<Rightarrow> ConsoleLine" where
  "asConsoleLine m = \<lparr>ts = fst m, line_text = snd m\<rparr>"

fun recomputed :: "ConsoleLine list \<Rightarrow> bool \<times> string list \<Rightarrow> string list" where
  \<comment> \<open>the values the loop of \<open>extractLastImageFromConsole\<close> assigns to \<open>lastImage\<close>, in
      order, from the state \<open>(capturing, buffer)\<close> on\<close>
  "recomputed [] (capturing, buffer) = []"
| "recomputed (item # items) (capturing, buffer) =
     (let raw = trim (getLineText item)
      in if raw = [] then recomputed items (capturing, buffer)
         else if raw = B64_IMAGE_START then recomputed items (True, [])
         else if raw = B64_IMAGE_END then
           (if capturing \<and> length buffer > 0 then [join buffer] else [])
             @ recomputed items (False, buffer)
         else if capturing then recomputed items (capturing, buffer @ [raw])
         else recomputed items (capturing, buffer))"

section \<open>Properties of the grid matrix decoder\<close>

subsection \<open>Characters\<close>

lemma of_char_eq_num: "(of_char ch :: nat) = of_char d \<longleftrightarrow> ch = d"
  by simp

lemma Number_char_unfold:
  "Number_char ch =
     (if 48 \<le> (of_char ch :: nat) \<and> (of_char ch :: nat) \<le> 57 then Some (of_char ch - 48)
      else if isWhiteSpace ch then Some 0 else None)"
  by (simp only: Number_char_def Let_def)

lemma Number_char_1: "Number_char ch = Some 1 \<longleftrightarrow> ch = CHR ''1''"
proof -
  define n where "n = (of_char ch :: nat)"
  have one: "n = 49 \<longleftrightarrow> ch = CHR ''1''"
    unfolding n_def using of_char_eq_num [of ch "CHR ''1''"] by simp
  have "Number_char ch = Some 1 \<longleftrightarrow> n = 49"
    unfolding Number_char_unfold n_def [symmetric] by (simp split: if_splits; arith)
  with one show ?thesis by simp
qed

lemma Number_char_rover:
  "(case Number_char ch of None \<Rightarrow> False | Some n \<Rightarrow> 2 \<le> n \<and> n \<le> 5) \<longleftrightarrow> isRoverDigit ch"
proof -
  define n where "n = (of_char ch :: nat)"
  have a: "n = 50 \<longleftrightarrow> ch = CHR ''2''"
    unfolding n_def using of_char_eq_num [of ch "CHR ''2''"] by simp
  have b: "n = 51 \<longleftrightarrow> ch = CHR ''3''"
    unfolding n_def using of_char_eq_num [of ch "CHR ''3''"] by simp
  have c: "n = 52 \<longleftrightarrow> ch = CHR ''4''"
    unfolding n_def using of_char_eq_num [of ch "CHR ''4''"] by simp
  have d: "n = 53 \<longleftrightarrow> ch = CHR ''5''"
    unfolding n_def using of_char_eq_num [of ch "CHR ''5''"] by simp
  have "isRoverDigit ch \<longleftrightarrow> n = 50 \<or> n = 51 \<or> n = 52 \<or> n = 53"
    unfolding isRoverDigit_def a b c d by simp
  then have R: "isRoverDigit ch \<longleftrightarrow> 50 \<le> n \<and> n \<le> 53"
    by arith
  show ?thesis
    unfolding Number_char_unfold n_def [symmetric] R by (simp split: if_splits; arith)
qed

lemma codeToDirection_digit:
  assumes "isRoverDigit ch"
  shows "codeToDirection (the (Number_char ch)) = dirOfDigit ch"
proof -
  from assms consider "ch = CHR ''2''" | "ch = CHR ''3''" | "ch = CHR ''4''" | "ch = CHR ''5''"
    unfolding isRoverDigit_def by auto
  then show ?thesis
    by cases (simp_all add: Number_char_def Let_def codeToDirection_def dirOfDigit_def)
qed

lemma set_trim: "set (trim t) \<subseteq> set t"
proof
  fix c assume "c \<in> set (trim t)"
  then have "c \<in> set (dropWhile isWhiteSpace (rev (dropWhile isWhiteSpace t)))"
    by (simp add: trim_def)
  then have "c \<in> set (rev (dropWhile isWhiteSpace t))"
    by (rule set_dropWhileD)
  then show "c \<in> set t"
    by (auto dest: set_dropWhileD)
qed

subsection \<open>One row, then all rows\<close>

lemma lastOr_Nil: "lastOr p [] = p"
  by (simp add: lastOr_def)

lemma lastOr_append: "lastOr (lastOr p xs) ys = lastOr p (xs @ ys)"
  by (simp add: lastOr_def)

lemma forEachChar_step:
  "forEachChar v c (ch # chars) (cells, p) =
     forEachChar v (Suc c) chars
       (cells @ [cellOf ch],
        if isRoverDigit ch then Some \<lparr>row = v, col = c, dir = dirOfDigit ch\<rparr> else p)"
proof -
  consider (one) "Number_char ch = Some 1" "\<not> isRoverDigit ch" "ch = CHR ''1''"
    | (rover) "Number_char ch \<noteq> Some 1" "isRoverDigit ch" "ch \<noteq> CHR ''1''"
    | (other) "Number_char ch \<noteq> Some 1" "\<not> isRoverDigit ch" "ch \<noteq> CHR ''1''"
    using Number_char_1 [of ch] by (auto simp: isRoverDigit_def)
  then show ?thesis
  proof cases
    case one
    then show ?thesis
      unfolding forEachChar.simps Let_def cellOf_def by simp
  next
    case rover
    then show ?thesis
      unfolding forEachChar.simps Let_def cellOf_def
      using Number_char_rover [of ch] codeToDirection_digit [of ch] by simp
  next
    case other
    then show ?thesis
      unfolding forEachChar.simps Let_def cellOf_def
      using Number_char_rover [of ch] by simp
  qed
qed

lemma forEachChar_eq:
  "forEachChar v c chars (cells, p) =
     (cells @ map cellOf chars,
      lastOr p [\<lparr>row = v, col = k, dir = dirOfDigit ch\<rparr>.
                 (k, ch) \<leftarrow> enumerate c chars, isRoverDigit ch])"
proof (induction chars arbitrary: c cells p)
  case Nil
  show ?case by (simp add: lastOr_def)
next
  case (Cons ch chars)
  show ?case
    unfolding forEachChar_step Cons.IH
    by (simp add: lastOr_def)
qed

lemma rowLoop_eq:
  "v \<le> n \<Longrightarrow>
   rowLoop toks n v (g, p) =
     (g @ map (\<lambda>u. decodeRow (toks ! (n - 1 - u))) [v..<n],
      lastOr p (scanHits (map (\<lambda>u. (u, toks ! (n - 1 - u))) [v..<n])))"
proof (induction "n - v" arbitrary: v g p)
  case 0
  then have "v = n" by simp
  then show ?case
    by (simp add: rowLoop.simps scanHits_def lastOr_Nil)
next
  case (Suc k)
  then have lt: "v < n" and k: "k = n - Suc v" and le: "Suc v \<le> n" by simp_all
  have upt: "[v..<n] = v # [Suc v..<n]"
    using lt by (simp add: upt_conv_Cons)
  let ?t = "trim (toks ! (n - 1 - v))"
  let ?goal = "(g @ map (\<lambda>u. decodeRow (toks ! (n - 1 - u))) [v..<n],
      lastOr p (scanHits (map (\<lambda>u. (u, toks ! (n - 1 - u))) [v..<n])))"
  show ?case
  proof (cases "?t = []")
    case True
    have "rowLoop toks n v (g, p) =
        rowLoop toks n (Suc v) (g @ [replicate GRID_COLS \<lparr>visited = False, obstacle = False\<rparr>], p)"
      using lt True by (subst rowLoop.simps) (simp add: Let_def)
    also have "\<dots> = ?goal"
      unfolding Suc.hyps(1) [OF k le] upt
      using True by (simp add: decodeRow_def emptyCell_def scanHits_def rowHits_def)
    finally show ?thesis .
  next
    case False
    have "rowLoop toks n v (g, p) =
        rowLoop toks n (Suc v) (g @ [map cellOf ?t], lastOr p (rowHits v ?t))"
      using lt False
      by (subst rowLoop.simps) (simp add: Let_def forEachChar_eq rowHits_def)
    also have "\<dots> = ?goal"
      unfolding Suc.hyps(1) [OF k le] upt
      using False by (simp add: decodeRow_def scanHits_def lastOr_append)
    finally show ?thesis .
  qed
qed

lemma parseMatrixLine_eq:
  "parseMatrixLine line =
     (if rowTokensOf line = [] then None
      else Some (map (\<lambda>u. decodeRow (rowTokensOf line
                             ! (min (length (rowTokensOf line)) GRID_ROWS - 1 - u)))
                   [0..<min (length (rowTokensOf line)) GRID_ROWS],
                 lastOr None (scanHits (displayOrder (rowTokensOf line)))))"
  by (simp add: parseMatrixLine_def rowTokensOf_def Let_def rowLoop_eq displayOrder_def
      split: option.split)

lemma rowHits_empty:
  assumes "\<forall>ch \<in> set chars. \<not> isRoverDigit ch"
  shows "rowHits v chars = []"
proof -
  have "\<not> isRoverDigit (snd q)" if "q \<in> set (enumerate 0 chars)" for q
  proof -
    from that have "snd q = chars ! fst q" and "fst q < length chars"
      by (simp_all add: in_set_enumerate_eq)
    then have "snd q \<in> set chars" by simp
    with assms show ?thesis by blast
  qed
  then show ?thesis
    by (auto simp: rowHits_def)
qed

lemma scanHits_empty:
  assumes "\<forall>q \<in> set rows. \<forall>ch \<in> set (snd q). \<not> isRoverDigit ch"
  shows "scanHits rows = []"
proof -
  have "rowHits (fst q) (trim (snd q)) = []" if "q \<in> set rows" for q
    using that assms set_trim [of "snd q"] by (intro rowHits_empty) blast
  then show ?thesis
    by (auto simp: scanHits_def)
qed

lemma displayOrder_tokens:
  assumes "q \<in> set (displayOrder toks)"
  shows "snd q \<in> set (take GRID_ROWS toks)"
proof -
  let ?n = "min (length toks) GRID_ROWS"
  from assms obtain v where v: "v < ?n" and q: "q = (v, toks ! (?n - 1 - v))"
    by (auto simp: displayOrder_def Let_def)
  have len: "length (take GRID_ROWS toks) = ?n" by simp
  from v have i: "?n - 1 - v < ?n" by arith
  then have "take GRID_ROWS toks ! (?n - 1 - v) \<in> set (take GRID_ROWS toks)"
    using len nth_mem [of "?n - 1 - v" "take GRID_ROWS toks"] by simp
  moreover from i have "take GRID_ROWS toks ! (?n - 1 - v) = toks ! (?n - 1 - v)"
    by (intro nth_take) arith
  ultimately show ?thesis using q by simp
qed

subsection \<open>The claims on the decoder\<close>

text \<open>
  C1 (as the code has it). The pose a matrix line decodes to is the one of the last rover
  digit met by a scan that visits the display rows from the top, that is the used row
  tokens from the last one down to token 0, and each row from left to right. The scan does
  not follow the storage order of the tokens.
\<close>

theorem pose_is_last_hit_in_display_order:
  assumes "parseMatrixLine line = Some (g, p)"
  shows "p = lastOr None (scanHits (displayOrder (rowTokensOf line)))"
  using assms by (simp add: parseMatrixLine_eq split: if_splits)

theorem pose_is_last_hit_in_display_order_witness:
  "parseMatrixLine ''RECV_ROVER_x,M,2000000000,0003000000''
     = Some ([decodeRow ''0003000000'', decodeRow ''2000000000''],
             Some \<lparr>row = 1, col = 0, dir = N\<rparr>)
   \<and> Some \<lparr>row = 1, col = 0, dir = N\<rparr>
     = lastOr None (scanHits (displayOrder
         (rowTokensOf ''RECV_ROVER_x,M,2000000000,0003000000'')))"
proof -
  have h: "parseMatrixLine ''RECV_ROVER_x,M,2000000000,0003000000''
     = Some ([decodeRow ''0003000000'', decodeRow ''2000000000''],
             Some \<lparr>row = 1, col = 0, dir = N\<rparr>)"
    by code_simp
  from pose_is_last_hit_in_display_order [OF h] h show ?thesis by simp
qed

text \<open>
  C1 (as stated) fails. In the line below token 0 holds the digit 2 and token 1 the digit 3.
  A scan in storage-token order meets the 3 of token 1 last, which is display row 0, column 3,
  direction E; the decoder returns the pose of the 2 of token 0.
\<close>

theorem pose_storage_order_counterexample:
  "map_option snd (parseMatrixLine ''RECV_ROVER_x,M,2000000000,0003000000'')
     = Some (Some \<lparr>row = 1, col = 0, dir = N\<rparr>)
   \<and> lastOr None (scanHits (storageOrder
         (rowTokensOf ''RECV_ROVER_x,M,2000000000,0003000000'')))
     = Some \<lparr>row = 0, col = 3, dir = E\<rparr>"
  by code_simp

text \<open>
  C2 (as the code has it). The grid decoded from a line with N row tokens has exactly
  min(N, 10) rows and no padding row: display row \<open>v\<close> is decoded from token
  \<open>min(N, 10) - 1 - v\<close>, tokens from the eleventh on are ignored, and a row has one cell per
  character of its trimmed token (ten empty cells when the token is blank).
\<close>

theorem grid_rows_are_the_used_tokens:
  assumes "parseMatrixLine line = Some (g, p)"
  shows "length g = min (length (rowTokensOf line)) GRID_ROWS
         \<and> (\<forall>v < length g. g ! v = decodeRow (rowTokensOf line ! (length g - 1 - v)))"
proof -
  let ?n = "min (length (rowTokensOf line)) GRID_ROWS"
  from assms have g: "g = map (\<lambda>u. decodeRow (rowTokensOf line ! (?n - 1 - u))) [0..<?n]"
    by (simp add: parseMatrixLine_eq split: if_splits)
  then have len: "length g = ?n" by simp
  have "g ! v = decodeRow (rowTokensOf line ! (length g - 1 - v))" if "v < length g" for v
    using that len by (subst (1) g) simp
  with len show ?thesis by blast
qed

theorem grid_rows_are_the_used_tokens_witness:
  "parseMatrixLine ''RECV_ROVER_x,M,0000000000,0002000000''
     = Some ([decodeRow ''0002000000'', decodeRow ''0000000000''],
             Some \<lparr>row = 0, col = 3, dir = N\<rparr>)
   \<and> length [decodeRow ''0002000000'', decodeRow ''0000000000'']
     = min (length (rowTokensOf ''RECV_ROVER_x,M,0000000000,0002000000'')) GRID_ROWS
   \<and> [decodeRow ''0002000000'', decodeRow ''0000000000''] ! 0
     = decodeRow (rowTokensOf ''RECV_ROVER_x,M,0000000000,0002000000'' ! 1)"
proof -
  have h: "parseMatrixLine ''RECV_ROVER_x,M,0000000000,0002000000''
     = Some ([decodeRow ''0002000000'', decodeRow ''0000000000''],
             Some \<lparr>row = 0, col = 3, dir = N\<rparr>)"
    by code_simp
  note t = grid_rows_are_the_used_tokens [OF h]
  from t have a: "length [decodeRow ''0002000000'', decodeRow ''0000000000'']
     = min (length (rowTokensOf ''RECV_ROVER_x,M,0000000000,0002000000'')) GRID_ROWS"
    by (rule conjunct1)
  from t have "\<forall>v < length [decodeRow ''0002000000'', decodeRow ''0000000000''].
      [decodeRow ''0002000000'', decodeRow ''0000000000''] ! v
        = decodeRow (rowTokensOf ''RECV_ROVER_x,M,0000000000,0002000000''
            ! (length [decodeRow ''0002000000'', decodeRow ''0000000000''] - 1 - v))"
    by (rule conjunct2)
  then have b: "[decodeRow ''0002000000'', decodeRow ''0000000000''] ! 0
     = decodeRow (rowTokensOf ''RECV_ROVER_x,M,0000000000,0002000000'' ! 1)"
    by (elim allE [of _ 0]) simp
  from h a b show ?thesis by blast
qed

text \<open>
  C2 (as stated) fails. A line with two row tokens decodes to a grid of two rows, not of
  ten: no empty row is added.
\<close>

theorem grid_not_padded_counterexample:
  "map_option (length \<circ> fst) (parseMatrixLine ''RECV_ROVER_x,M,0000000000,0002000000'') = Some 2
   \<and> (2 :: nat) \<noteq> GRID_ROWS"
  by code_simp

text \<open>
  C3. The line \<open>RECV_ROVER_x,M,0000000000,0002000000\<close> decodes to the pose row 0, column 3,
  direction N: its last token is display row 0 and the token before it display row 1, and the
  digit 2 at index 3 gives column 3 and direction N. For every line, display row \<open>v\<close> is read
  from the token of index \<open>numRows - 1 - v\<close>.
\<close>

theorem two_token_line_pose:
  "parseMatrixLine ''RECV_ROVER_x,M,0000000000,0002000000''
     = Some ([map cellOf ''0002000000'', map cellOf ''0000000000''],
             Some \<lparr>row = 0, col = 3, dir = N\<rparr>)
   \<and> (parseMatrixLine line = Some (g, p) \<and> v < length g \<longrightarrow>
        g ! v = decodeRow (rowTokensOf line
                  ! (min (length (rowTokensOf line)) GRID_ROWS - 1 - v)))"
proof (intro conjI impI)
  show "parseMatrixLine ''RECV_ROVER_x,M,0000000000,0002000000''
     = Some ([map cellOf ''0002000000'', map cellOf ''0000000000''],
             Some \<lparr>row = 0, col = 3, dir = N\<rparr>)"
    by code_simp
next
  let ?n = "min (length (rowTokensOf line)) GRID_ROWS"
  assume a: "parseMatrixLine line = Some (g, p) \<and> v < length g"
  then have g: "g = map (\<lambda>u. decodeRow (rowTokensOf line ! (?n - 1 - u))) [0..<?n]"
    by (simp add: parseMatrixLine_eq split: if_splits)
  then have "length g = ?n" by simp
  with a have "v < ?n" by simp
  then show "g ! v = decodeRow (rowTokensOf line ! (?n - 1 - v))"
    by (subst g) simp
qed

theorem two_token_line_pose_witness:
  "rowTokensOf ''RECV_ROVER_x,M,0000000000,0002000000'' ! 1 = ''0002000000''
   \<and> [map cellOf ''0002000000'', map cellOf ''0000000000''] ! 0
     = decodeRow (rowTokensOf ''RECV_ROVER_x,M,0000000000,0002000000'' ! 1)"
proof -
  note T = two_token_line_pose
    [of "''RECV_ROVER_x,M,0000000000,0002000000''"
        "[map cellOf ''0002000000'', map cellOf ''0000000000'']"
        "Some \<lparr>row = 0, col = 3, dir = N\<rparr>" 0]
  have n: "min (length (rowTokensOf ''RECV_ROVER_x,M,0000000000,0002000000'')) GRID_ROWS - 1 - 0
      = 1"
    by code_simp
  have t: "rowTokensOf ''RECV_ROVER_x,M,0000000000,0002000000'' ! 1 = ''0002000000''"
    by code_simp
  from T [THEN conjunct2] T [THEN conjunct1]
  have "[map cellOf ''0002000000'', map cellOf ''0000000000''] ! 0
     = decodeRow (rowTokensOf ''RECV_ROVER_x,M,0000000000,0002000000''
         ! (min (length (rowTokensOf ''RECV_ROVER_x,M,0000000000,0002000000'')) GRID_ROWS
              - 1 - 0))"
    by simp
  then have "[map cellOf ''0002000000'', map cellOf ''0000000000''] ! 0
     = decodeRow (rowTokensOf ''RECV_ROVER_x,M,0000000000,0002000000'' ! 1)"
    by (simp only: n)
  with t show ?thesis by blast
qed

text \<open>
  C8. When a line decodes and none of its used row tokens holds a rover digit, applying it
  leaves the pose held before unchanged and replaces the grid by the decoded one.
\<close>

theorem applyMatrix_keeps_pose_without_rover_digit:
  assumes "parseMatrixLine line = Some (g, p)"
    and "\<forall>t \<in> set (take GRID_ROWS (rowTokensOf line)). \<forall>ch \<in> set t. \<not> isRoverDigit ch"
  shows "pose (applyMatrix line st) = pose st \<and> grid (applyMatrix line st) = g"
proof -
  have "scanHits (displayOrder (rowTokensOf line)) = []"
    using assms(2) displayOrder_tokens by (intro scanHits_empty) blast
  with assms(1) have "parseMatrixLine line = Some (g, None)"
    by (simp add: parseMatrixLine_eq lastOr_Nil split: if_splits)
  then show ?thesis
    by (simp add: applyMatrix_def)
qed

theorem applyMatrix_keeps_pose_without_rover_digit_witness:
  "pose (applyMatrix ''RECV_ROVER_x,M,0100000000,0000000000''
           \<lparr>grid = createEmptyGrid, pose = \<lparr>row = 4, col = 5, dir = E\<rparr>\<rparr>)
     = \<lparr>row = 4, col = 5, dir = E\<rparr>
   \<and> grid (applyMatrix ''RECV_ROVER_x,M,0100000000,0000000000''
           \<lparr>grid = createEmptyGrid, pose = \<lparr>row = 4, col = 5, dir = E\<rparr>\<rparr>)
     = [map cellOf ''0000000000'', map cellOf ''0100000000'']"
proof -
  have h: "parseMatrixLine ''RECV_ROVER_x,M,0100000000,0000000000''
     = Some ([map cellOf ''0000000000'', map cellOf ''0100000000''], None)"
    by code_simp
  have d: "\<forall>t \<in> set (take GRID_ROWS (rowTokensOf ''RECV_ROVER_x,M,0100000000,0000000000'')).
             \<forall>ch \<in> set t. \<not> isRoverDigit ch"
    by code_simp
  from applyMatrix_keeps_pose_without_rover_digit [OF h d] show ?thesis by simp
qed

section \<open>Properties of the serial feed\<close>

lemma markers_distinct: "B64_IMAGE_START \<noteq> B64_IMAGE_END"
  by (simp add: B64_IMAGE_START_def B64_IMAGE_END_def)

lemma handle_START:
  "handleSerialIn t B64_IMAGE_START s =
     (s\<lparr>consoleLines := pushConsole (consoleLines s) \<lparr>ts = t, line_text = B64_IMAGE_START\<rparr>,
        pending := True, chunks := []\<rparr>, None)"
  by (simp add: handleSerialIn_def Let_def)

lemma handle_END:
  "handleSerialIn t B64_IMAGE_END s =
     (if pending s \<and> chunks s \<noteq> []
      then (s\<lparr>consoleLines := pushConsole (consoleLines s) \<lparr>ts = t, line_text = B64_IMAGE_END\<rparr>,
              lastImageDataUrl := Some (DATA_URL_PREFIX @ concat (chunks s)),
              pending := False, chunks := []\<rparr>,
            Some (DATA_URL_PREFIX @ concat (chunks s)))
      else (s\<lparr>consoleLines := pushConsole (consoleLines s) \<lparr>ts = t, line_text = B64_IMAGE_END\<rparr>,
              pending := False, chunks := []\<rparr>, None))"
  using markers_distinct by (simp add: handleSerialIn_def Let_def join_def)

lemma handle_chunk:
  assumes "pending s" "l \<noteq> B64_IMAGE_START" "l \<noteq> B64_IMAGE_END"
  shows "handleSerialIn t l s =
     (s\<lparr>consoleLines := pushConsole (consoleLines s) \<lparr>ts = t, line_text = l\<rparr>,
        chunks := chunks s @ [trim l]\<rparr>, None)"
  using assms by (simp add: handleSerialIn_def Let_def)

lemma handle_idle:
  assumes "\<not> pending s" "l \<noteq> B64_IMAGE_START" "l \<noteq> B64_IMAGE_END"
  shows "snd (handleSerialIn t l s) = None"
    and "pending (fst (handleSerialIn t l s)) = False"
    and "chunks (fst (handleSerialIn t l s)) = chunks s"
    and "lastImageDataUrl (fst (handleSerialIn t l s)) = lastImageDataUrl s"
  using assms by (simp_all add: handleSerialIn_def Let_def)

lemma emitted_iff:
  "(snd (handleSerialIn t l s) = Some u) =
     (l = B64_IMAGE_END \<and> pending s \<and> chunks s \<noteq> [] \<and> u = DATA_URL_PREFIX @ concat (chunks s))"
proof (cases "l = B64_IMAGE_START")
  case True
  then show ?thesis using markers_distinct by (simp add: handle_START)
next
  case ns: False
  show ?thesis
  proof (cases "l = B64_IMAGE_END")
    case True
    then show ?thesis by (auto simp: handle_END)
  next
    case False
    with ns show ?thesis
      by (cases "pending s") (simp_all add: handle_chunk handle_idle)
  qed
qed

lemma images_append: "images s (xs @ ys) = images s xs @ images (feed s xs) ys"
  by (induction xs arbitrary: s) auto

lemma feed_append: "feed s (xs @ ys) = feed (feed s xs) ys"
  by (induction xs arbitrary: s) auto

lemma chunk_lines:
  assumes "pending s" "\<forall>m \<in> set ls. snd m \<noteq> B64_IMAGE_START \<and> snd m \<noteq> B64_IMAGE_END"
  shows "images s ls = [] \<and> pending (feed s ls)
         \<and> chunks (feed s ls) = chunks s @ map (trim \<circ> snd) ls"
  using assms
proof (induction ls arbitrary: s)
  case Nil
  then show ?case by simp
next
  case (Cons m ls)
  obtain t l where m: "m = (t, l)" by (cases m)
  with Cons.prems have l: "l \<noteq> B64_IMAGE_START" "l \<noteq> B64_IMAGE_END" by simp_all
  note h = handle_chunk [OF Cons.prems(1) l, of t]
  have p: "pending (fst (handleSerialIn t l s))" using Cons.prems(1) by (simp add: h)
  from Cons.prems(2) have r: "\<forall>m \<in> set ls. snd m \<noteq> B64_IMAGE_START \<and> snd m \<noteq> B64_IMAGE_END"
    by simp
  from Cons.IH [OF p r] show ?case
    by (simp add: m h)
qed

lemma images_cong:
  assumes "pending s = pending s'" "chunks s = chunks s'"
  shows "images s ms = images s' ms"
  using assms
proof (induction ms arbitrary: s s')
  case Nil
  show ?case by simp
next
  case (Cons m ms)
  obtain t l where m: "m = (t, l)" by (cases m)
  have e: "snd (handleSerialIn t l s) = snd (handleSerialIn t l s')"
    using Cons.prems by (simp add: handleSerialIn_def Let_def)
  have p: "pending (fst (handleSerialIn t l s)) = pending (fst (handleSerialIn t l s'))"
    using Cons.prems by (simp add: handleSerialIn_def Let_def)
  have c: "chunks (fst (handleSerialIn t l s)) = chunks (fst (handleSerialIn t l s'))"
    using Cons.prems by (simp add: handleSerialIn_def Let_def)
  from Cons.IH [OF p c] e show ?case
    by (simp add: m)
qed

text \<open>
  C5. Handling a line emits an image exactly when the line is \<open>B64_IMAGE_END\<close>, the state is
  capturing and at least one chunk is held; the image is the data URL of the concatenation of
  the held chunks. \<open>B64_IMAGE_END\<close> always leaves the state idle with no chunk. Hence a
  block \<open>B64_IMAGE_START\<close>, chunk lines, \<open>B64_IMAGE_END\<close> emits the concatenation, in order
  of receipt, of the trimmed chunk lines when there is at least one, and nothing otherwise;
  the lines \<open>aGVs\<close>, \<open>bG8=\<close> give the payload \<open>aGVsbG8=\<close>.
\<close>

theorem image_emitted_exactly_on_END:
  "(snd (handleSerialIn t l s) = Some u) =
     (l = B64_IMAGE_END \<and> pending s \<and> chunks s \<noteq> [] \<and> u = DATA_URL_PREFIX @ concat (chunks s))
   \<and> pending (fst (handleSerialIn t B64_IMAGE_END s)) = False
   \<and> chunks (fst (handleSerialIn t B64_IMAGE_END s)) = []
   \<and> ((\<forall>m \<in> set ls. snd m \<noteq> B64_IMAGE_START \<and> snd m \<noteq> B64_IMAGE_END) \<longrightarrow>
        images s ((t0, B64_IMAGE_START) # ls @ [(t1, B64_IMAGE_END)])
          = (if ls = [] then [] else [DATA_URL_PREFIX @ concat (map (trim \<circ> snd) ls)]))"
proof (intro conjI impI)
  show "(snd (handleSerialIn t l s) = Some u) =
     (l = B64_IMAGE_END \<and> pending s \<and> chunks s \<noteq> [] \<and> u = DATA_URL_PREFIX @ concat (chunks s))"
    by (rule emitted_iff)
  show "pending (fst (handleSerialIn t B64_IMAGE_END s)) = False"
    by (simp add: handle_END)
  show "chunks (fst (handleSerialIn t B64_IMAGE_END s)) = []"
    by (simp add: handle_END)
next
  assume a: "\<forall>m \<in> set ls. snd m \<noteq> B64_IMAGE_START \<and> snd m \<noteq> B64_IMAGE_END"
  let ?s1 = "fst (handleSerialIn t0 B64_IMAGE_START s)"
  have p: "pending ?s1" and c: "chunks ?s1 = []"
    and e: "snd (handleSerialIn t0 B64_IMAGE_START s) = None"
    by (simp_all add: handle_START)
  from chunk_lines [OF p a] c
  have i: "images ?s1 ls = []" and p2: "pending (feed ?s1 ls)"
    and c2: "chunks (feed ?s1 ls) = map (trim \<circ> snd) ls" by simp_all
  have "images s ((t0, B64_IMAGE_START) # ls @ [(t1, B64_IMAGE_END)])
      = images (feed ?s1 ls) [(t1, B64_IMAGE_END)]"
    using e by (simp add: images_append i)
  also have "\<dots> = (if ls = [] then [] else [DATA_URL_PREFIX @ concat (map (trim \<circ> snd) ls)])"
    using p2 c2 by (simp add: handle_END)
  finally show "images s ((t0, B64_IMAGE_START) # ls @ [(t1, B64_IMAGE_END)])
      = (if ls = [] then [] else [DATA_URL_PREFIX @ concat (map (trim \<circ> snd) ls)])" .
qed

theorem image_emitted_exactly_on_END_witness:
  "images initialFeedState
     [(0, B64_IMAGE_START), (1, ''aGVs''), (2, ''bG8=''), (3, B64_IMAGE_END)]
   = [''data:image/jpeg;base64,aGVsbG8='']"
proof -
  have a: "\<forall>m \<in> set [(1 :: rat, ''aGVs''), (2, ''bG8='')].
      snd m \<noteq> B64_IMAGE_START \<and> snd m \<noteq> B64_IMAGE_END"
    by (simp add: B64_IMAGE_START_def B64_IMAGE_END_def)
  have b: "DATA_URL_PREFIX @ concat (map (trim \<circ> snd) [(1 :: rat, ''aGVs''), (2, ''bG8='')])
      = ''data:image/jpeg;base64,aGVsbG8=''"
    by code_simp
  from image_emitted_exactly_on_END
    [of 0 "[]" initialFeedState "[]" "[(1, ''aGVs''), (2, ''bG8='')]" 0 3]
  have "images initialFeedState
          ((0, B64_IMAGE_START) # [(1, ''aGVs''), (2, ''bG8='')] @ [(3, B64_IMAGE_END)])
        = [DATA_URL_PREFIX @ concat (map (trim \<circ> snd) [(1 :: rat, ''aGVs''), (2, ''bG8='')])]"
    using a by simp
  then show ?thesis unfolding b by simp
qed

text \<open>
  C6. A \<open>B64_IMAGE_START\<close> leaves no chunk held, whatever was accumulated before, and the
  images emitted by any later lines are those emitted from any other state after a
  \<open>B64_IMAGE_START\<close>: nothing of a discarded partial capture reaches an image.
\<close>

theorem restart_discards_partial_capture:
  "chunks (fst (handleSerialIn t B64_IMAGE_START s)) = []
   \<and> images (fst (handleSerialIn t B64_IMAGE_START s)) ms
     = images (fst (handleSerialIn t' B64_IMAGE_START s')) ms"
proof
  show "chunks (fst (handleSerialIn t B64_IMAGE_START s)) = []"
    by (simp add: handle_START)
  show "images (fst (handleSerialIn t B64_IMAGE_START s)) ms
     = images (fst (handleSerialIn t' B64_IMAGE_START s')) ms"
    by (rule images_cong) (simp_all add: handle_START)
qed

theorem restart_discards_partial_capture_witness:
  "images initialFeedState
     [(0, B64_IMAGE_START), (1, ''AAAA''), (2, B64_IMAGE_START), (3, ''BBBB''),
      (4, B64_IMAGE_END)]
   = [''data:image/jpeg;base64,BBBB'']"
proof -
  let ?s = "feed initialFeedState [(0, B64_IMAGE_START), (1, ''AAAA'')]"
  have a: "images initialFeedState [(0, B64_IMAGE_START), (1, ''AAAA'')] = []"
    by code_simp
  have b: "images (fst (handleSerialIn 2 B64_IMAGE_START initialFeedState))
      [(3, ''BBBB''), (4, B64_IMAGE_END)] = [''data:image/jpeg;base64,BBBB'']"
    by code_simp
  have c: "snd (handleSerialIn 2 B64_IMAGE_START ?s) = None"
    by (simp add: handle_START)
  from restart_discards_partial_capture
    [of 2 ?s "[(3, ''BBBB''), (4, B64_IMAGE_END)]" 2 initialFeedState]
  have d: "images (fst (handleSerialIn 2 B64_IMAGE_START ?s)) [(3, ''BBBB''), (4, B64_IMAGE_END)]
      = [''data:image/jpeg;base64,BBBB'']"
    unfolding b by (rule conjunct2)
  have "images initialFeedState
      ([(0, B64_IMAGE_START), (1, ''AAAA'')]
        @ (2, B64_IMAGE_START) # [(3, ''BBBB''), (4, B64_IMAGE_END)])
     = images (fst (handleSerialIn 2 B64_IMAGE_START ?s)) [(3, ''BBBB''), (4, B64_IMAGE_END)]"
    unfolding images_append a using c by simp
  with d show ?thesis by simp
qed

text \<open>
  C7. While capturing, a line other than the two markers is logged to the console and
  appended, trimmed, as a chunk; nothing else changes and no image is emitted. In
  particular the stored matrix line is kept, also for a line that starts with
  \<open>RECV_ROVER_\<close> and contains \<open>,M,\<close>.
\<close>

theorem capturing_shadows_line_rules:
  assumes "pending s" and "l \<noteq> B64_IMAGE_START" and "l \<noteq> B64_IMAGE_END"
  shows "handleSerialIn t l s =
           (s\<lparr>consoleLines := pushConsole (consoleLines s) \<lparr>ts = t, line_text = l\<rparr>,
              chunks := chunks s @ [trim l]\<rparr>, None)
         \<and> lastMatrixLine (fst (handleSerialIn t l s)) = lastMatrixLine s"
  using assms by (simp add: handle_chunk)

theorem capturing_shadows_line_rules_witness:
  "startsWith ''RECV_ROVER_x,M,0002000000'' ''RECV_ROVER_''
   \<and> includes_str ''RECV_ROVER_x,M,0002000000'' '',M,''
   \<and> lastMatrixLine (fst (handleSerialIn 0 ''RECV_ROVER_x,M,0002000000''
        (initialFeedState\<lparr>pending := True\<rparr>))) = None
   \<and> chunks (fst (handleSerialIn 0 ''RECV_ROVER_x,M,0002000000''
        (initialFeedState\<lparr>pending := True\<rparr>))) = [''RECV_ROVER_x,M,0002000000'']"
proof -
  have p: "pending (initialFeedState\<lparr>pending := True\<rparr>)" by simp
  have a: "''RECV_ROVER_x,M,0002000000'' \<noteq> B64_IMAGE_START"
    and b: "''RECV_ROVER_x,M,0002000000'' \<noteq> B64_IMAGE_END"
    by (simp_all add: B64_IMAGE_START_def B64_IMAGE_END_def)
  have s: "startsWith ''RECV_ROVER_x,M,0002000000'' ''RECV_ROVER_''
      \<and> includes_str ''RECV_ROVER_x,M,0002000000'' '',M,''"
    by code_simp
  have t: "trim ''RECV_ROVER_x,M,0002000000'' = ''RECV_ROVER_x,M,0002000000''"
    by code_simp
  from capturing_shadows_line_rules [OF p a b, of 0] s t show ?thesis
    by (simp add: initialFeedState_def)
qed

section \<open>The image recomputed from the console\<close>

lemma extractLoop_Cons:
  "extractLoop (item # items) st = extractLoop items (extractStep item st)"
  by (cases st) (simp add: extractStep_def Let_def)

lemma extractLoop_append:
  "extractLoop (xs @ ys) st = extractLoop ys (foldl (\<lambda>e x. extractStep x e) st xs)"
proof (induction xs arbitrary: st)
  case Nil
  show ?case by simp
next
  case (Cons x xs)
  show ?case
    unfolding append_Cons extractLoop_Cons Cons.IH by simp
qed

lemma trim_START: "trim B64_IMAGE_START = B64_IMAGE_START"
  by code_simp

lemma trim_END: "trim B64_IMAGE_END = B64_IMAGE_END"
  by code_simp

lemma START_nonempty: "B64_IMAGE_START \<noteq> []" and END_nonempty: "B64_IMAGE_END \<noteq> []"
  by (simp_all add: B64_IMAGE_START_def B64_IMAGE_END_def)

lemma extractStep_START:
  "extractStep (asConsoleLine (t, B64_IMAGE_START)) (c, b, i) = (True, [], i)"
  using START_nonempty
  by (simp add: extractStep_def asConsoleLine_def getLineText_def trim_START Let_def)

lemma extractStep_END:
  "extractStep (asConsoleLine (t, B64_IMAGE_END)) (c, b, i) =
     (False, b, if c \<and> b \<noteq> [] then Some (concat b) else i)"
  using END_nonempty markers_distinct
  by (simp add: extractStep_def asConsoleLine_def getLineText_def trim_END Let_def join_def)

lemma lastOr_Cons: "lastOr i (x # xs) = lastOr (Some x) xs"
  by (simp add: lastOr_def)

lemma extractLoop_recomputed:
  "extractLoop xs (c, b, i) = lastOr i (recomputed xs (c, b))"
proof (induction xs arbitrary: c b i)
  case Nil
  show ?case by (simp add: lastOr_Nil)
next
  case (Cons x xs)
  show ?case
    by (simp add: Cons.IH Let_def lastOr_Cons)
qed

lemma recomputed_idle:
  "recomputed xs (False, b) = recomputed xs (False, b')"
proof (induction xs arbitrary: b b')
  case Nil
  show ?case by simp
next
  case (Cons x xs)
  from Cons.IH [of b b'] show ?case
    by (simp add: Let_def)
qed

lemma lastImageDataUrl_handle:
  "lastImageDataUrl (fst (handleSerialIn t l s)) =
     (case snd (handleSerialIn t l s) of None \<Rightarrow> lastImageDataUrl s | Some u \<Rightarrow> Some u)"
  by (simp add: handleSerialIn_def Let_def)

lemma lastImageDataUrl_feed:
  "lastImageDataUrl (feed s ms) = lastOr (lastImageDataUrl s) (images s ms)"
proof (induction ms arbitrary: s)
  case Nil
  show ?case by (simp add: lastOr_Nil)
next
  case (Cons m ms)
  obtain t l where m: "m = (t, l)" by (cases m)
  show ?case
    by (simp add: m Cons.IH lastImageDataUrl_handle lastOr_Cons split: option.split)
qed

lemma concat_filter_nonempty: "concat (filter (\<lambda>c. c \<noteq> []) xs) = concat xs"
  by (induction xs) simp_all

lemma extractStep_chunk:
  assumes "trim l \<noteq> B64_IMAGE_START" "trim l \<noteq> B64_IMAGE_END"
  shows "extractStep (asConsoleLine (t, l)) (True, b, i)
         = (True, b @ filter (\<lambda>c. c \<noteq> []) [trim l], i)"
  using assms
  by (simp add: extractStep_def asConsoleLine_def getLineText_def Let_def)

lemma block_fold:
  assumes "\<forall>m \<in> set blk. trim (snd m) \<noteq> B64_IMAGE_START \<and> trim (snd m) \<noteq> B64_IMAGE_END"
  shows "foldl (\<lambda>e x. extractStep x e) (True, b, i) (map asConsoleLine blk)
         = (True, b @ filter (\<lambda>c. c \<noteq> []) (map (trim \<circ> snd) blk), i)"
  using assms
proof (induction blk arbitrary: b)
  case Nil
  show ?case by simp
next
  case (Cons m blk)
  obtain t l where m: "m = (t, l)" by (cases m)
  with Cons.prems have l: "trim l \<noteq> B64_IMAGE_START" "trim l \<noteq> B64_IMAGE_END" by simp_all
  from Cons.prems have r: "\<forall>m \<in> set blk.
      trim (snd m) \<noteq> B64_IMAGE_START \<and> trim (snd m) \<noteq> B64_IMAGE_END" by simp
  show ?case
    by (simp add: m extractStep_chunk [OF l] Cons.IH [OF r])
qed

lemma consoleLines_handle:
  "consoleLines (fst (handleSerialIn t l s)) = pushConsole (consoleLines s) (asConsoleLine (t, l))"
  by (simp add: handleSerialIn_def Let_def asConsoleLine_def)

lemma pushConsole_drop:
  "pushConsole prev x = drop (Suc (length prev) - 2000) (prev @ [x])"
  by (simp add: pushConsole_def Let_def)

lemma keep_snoc:
  "drop (Suc (length (drop (length xs - n) xs)) - n) (drop (length xs - n) xs @ [y])
     = drop (Suc (length xs) - n) (xs @ [y])"
proof (cases "length xs \<le> n")
  case True
  then show ?thesis by simp
next
  case False
  then have "length (drop (length xs - n) xs) = n" by simp
  moreover from False have "Suc (length xs) - n = Suc (length xs - n)" by arith
  ultimately show ?thesis using False by (simp add: drop_Suc tl_drop)
qed

lemma consoleLines_feed:
  "consoleLines (feed initialFeedState ms)
     = drop (length ms - 2000) (map asConsoleLine ms)"
proof (induction ms rule: rev_induct)
  case Nil
  show ?case by (simp add: initialFeedState_def)
next
  case (snoc m ms)
  obtain t l where m: "m = (t, l)" by (cases m)
  have "consoleLines (feed initialFeedState (ms @ [m]))
      = pushConsole (consoleLines (feed initialFeedState ms)) (asConsoleLine m)"
    by (simp add: feed_append m consoleLines_handle)
  also have "\<dots> = drop (Suc (length (map asConsoleLine ms)) - 2000)
        (map asConsoleLine ms @ [asConsoleLine m])"
    unfolding snoc.IH pushConsole_drop
    using keep_snoc [of "map asConsoleLine ms" 2000 "asConsoleLine m"] by simp
  finally show ?case by simp
qed

lemma block_not_markers:
  assumes "\<forall>m \<in> set blk. trim (snd m) \<noteq> B64_IMAGE_START \<and> trim (snd m) \<noteq> B64_IMAGE_END"
  shows "\<forall>m \<in> set blk. snd m \<noteq> B64_IMAGE_START \<and> snd m \<noteq> B64_IMAGE_END"
  using assms trim_START trim_END by metis

lemma block_payload_nonempty:
  assumes "\<exists>m \<in> set blk. trim (snd m) \<noteq> []"
  shows "filter (\<lambda>c. c \<noteq> []) (map (trim \<circ> snd) blk) \<noteq> []"
    and "concat (map (trim \<circ> snd) blk) \<noteq> []"
    and "blk \<noteq> []"
  using assms by (auto simp: filter_empty_conv)

text \<open>
  C10 (as the code has it). Let the lines received so far hold a block that is complete for
  both paths: the line \<open>B64_IMAGE_START\<close>, then lines none of which is a marker after
  trimming and at least one of which is not blank, then the line \<open>B64_IMAGE_END\<close>. Let the
  block be the most recent one: in the lines after it the feed emits no image and the loop of
  \<open>App\<close> finds none. Let the block and the lines after it still be in the console. Then the
  data URL that \<open>App\<close> recomputes from the console is the one the feed emitted last: that of
  the concatenation of the trimmed lines of the block.
\<close>

theorem recomputed_image_agrees:
  assumes "\<forall>m \<in> set blk. trim (snd m) \<noteq> B64_IMAGE_START \<and> trim (snd m) \<noteq> B64_IMAGE_END"
    and "\<exists>m \<in> set blk. trim (snd m) \<noteq> []"
    and "images (feed initialFeedState (a @ (t0, B64_IMAGE_START) # blk @ [(t1, B64_IMAGE_END)]))
           tail = []"
    and "recomputed (map asConsoleLine tail) (False, []) = []"
    and "length blk + length tail + 2 \<le> 2000"
  shows "latestImageDataUrl (consoleLines (feed initialFeedState
            (a @ (t0, B64_IMAGE_START) # blk @ (t1, B64_IMAGE_END) # tail)))
           = Some (DATA_URL_PREFIX @ concat (map (trim \<circ> snd) blk))
         \<and> lastImageDataUrl (feed initialFeedState
            (a @ (t0, B64_IMAGE_START) # blk @ (t1, B64_IMAGE_END) # tail))
           = Some (DATA_URL_PREFIX @ concat (map (trim \<circ> snd) blk))
         \<and> last (images initialFeedState
            (a @ (t0, B64_IMAGE_START) # blk @ (t1, B64_IMAGE_END) # tail))
           = DATA_URL_PREFIX @ concat (map (trim \<circ> snd) blk)"
proof -
  let ?ms = "a @ (t0, B64_IMAGE_START) # blk @ (t1, B64_IMAGE_END) # tail"
  let ?p = "concat (map (trim \<circ> snd) blk)"
  let ?u = "DATA_URL_PREFIX @ ?p"
  let ?s0 = "feed initialFeedState a"
  let ?s1 = "fst (handleSerialIn t0 B64_IMAGE_START ?s0)"
  let ?s2 = "feed ?s1 blk"
  let ?s3 = "fst (handleSerialIn t1 B64_IMAGE_END ?s2)"
  note nm = block_not_markers [OF assms(1)]
  note ne = block_payload_nonempty [OF assms(2)]
  \<comment> \<open>the feed\<close>
  have p1: "pending ?s1" and c1: "chunks ?s1 = []"
    and e1: "snd (handleSerialIn t0 B64_IMAGE_START ?s0) = None"
    by (simp_all add: handle_START)
  from chunk_lines [OF p1 nm] c1
  have i2: "images ?s1 blk = []" and p2: "pending ?s2"
    and c2: "chunks ?s2 = map (trim \<circ> snd) blk" by simp_all
  have e3: "snd (handleSerialIn t1 B64_IMAGE_END ?s2) = Some ?u"
    using p2 c2 ne(3) by (simp add: handle_END)
  have s3: "feed initialFeedState (a @ (t0, B64_IMAGE_START) # blk @ [(t1, B64_IMAGE_END)]) = ?s3"
    by (simp add: feed_append)
  from assms(3) have i4: "images ?s3 tail = []"
    by (simp only: s3)
  have split: "?ms = a @ [(t0, B64_IMAGE_START)] @ blk @ [(t1, B64_IMAGE_END)] @ tail"
    by simp
  have im: "images initialFeedState ?ms = images initialFeedState a @ [?u]"
    unfolding split images_append feed_append
    using e1 i2 e3 i4 by simp
  have A: "last (images initialFeedState ?ms) = ?u"
    by (simp add: im)
  have B: "lastImageDataUrl (feed initialFeedState ?ms) = Some ?u"
    by (simp add: lastImageDataUrl_feed im lastOr_def)
  \<comment> \<open>the console and the loop over it\<close>
  let ?k = "length ?ms - 2000"
  from assms(5) have k: "?k \<le> length a" by simp
  have cl: "consoleLines (feed initialFeedState ?ms)
      = drop ?k (map asConsoleLine a) @ asConsoleLine (t0, B64_IMAGE_START)
          # map asConsoleLine blk @ asConsoleLine (t1, B64_IMAGE_END) # map asConsoleLine tail"
    unfolding consoleLines_feed using k by simp
  obtain c bf i where st: "foldl (\<lambda>e x. extractStep x e) (False, [], None)
      (drop ?k (map asConsoleLine a)) = (c, bf, i)"
    by (cases "foldl (\<lambda>e x. extractStep x e) (False, [], None) (drop ?k (map asConsoleLine a))")
  let ?b = "filter (\<lambda>c. c \<noteq> []) (map (trim \<circ> snd) blk)"
  have "extractLastImageFromConsole (consoleLines (feed initialFeedState ?ms))
      = extractLoop (asConsoleLine (t1, B64_IMAGE_END) # map asConsoleLine tail) (True, ?b, i)"
    unfolding cl extractLastImageFromConsole_def extractLoop_append st extractLoop_Cons
      extractStep_START
    using block_fold [OF assms(1), of "[]" i] by simp
  also have "\<dots> = extractLoop (map asConsoleLine tail) (False, ?b, Some (concat ?b))"
    unfolding extractLoop_Cons extractStep_END using ne(1) by simp
  also have "\<dots> = Some (concat ?b)"
    unfolding extractLoop_recomputed recomputed_idle [of _ ?b "[]"] assms(4)
    by (simp add: lastOr_Nil)
  finally have "extractLastImageFromConsole (consoleLines (feed initialFeedState ?ms)) = Some ?p"
    by (simp only: concat_filter_nonempty)
  then have C: "latestImageDataUrl (consoleLines (feed initialFeedState ?ms)) = Some ?u"
    using ne(2) by (simp add: latestImageDataUrl_def)
  from C B A show ?thesis by blast
qed

theorem recomputed_image_agrees_witness:
  "latestImageDataUrl (consoleLines (feed initialFeedState
      [(0, B64_IMAGE_START), (1, ''aGVs''), (2, ''''), (3, '' bG8= ''), (4, B64_IMAGE_END),
       (5, ''''), (6, '' B64_IMAGE_END'')]))
     = Some ''data:image/jpeg;base64,aGVsbG8=''
   \<and> lastImageDataUrl (feed initialFeedState
      [(0, B64_IMAGE_START), (1, ''aGVs''), (2, ''''), (3, '' bG8= ''), (4, B64_IMAGE_END),
       (5, ''''), (6, '' B64_IMAGE_END'')])
     = Some ''data:image/jpeg;base64,aGVsbG8=''"
proof -
  have h1: "\<forall>m \<in> set [(1 :: rat, ''aGVs''), (2, ''''), (3, '' bG8= '')].
      trim (snd m) \<noteq> B64_IMAGE_START \<and> trim (snd m) \<noteq> B64_IMAGE_END"
    by code_simp
  have h2: "\<exists>m \<in> set [(1 :: rat, ''aGVs''), (2, ''''), (3, '' bG8= '')]. trim (snd m) \<noteq> []"
    by code_simp
  have h3: "images (feed initialFeedState
      ([] @ (0, B64_IMAGE_START) # [(1, ''aGVs''), (2, ''''), (3, '' bG8= '')]
          @ [(4, B64_IMAGE_END)]))
      [(5, ''''), (6, '' B64_IMAGE_END'')] = []"
    by code_simp
  have h4: "recomputed (map asConsoleLine [(5, ''''), (6, '' B64_IMAGE_END'')]) (False, []) = []"
    by code_simp
  have h5: "length [(1 :: rat, ''aGVs''), (2, ''''), (3, '' bG8= '')]
      + length [(5 :: rat, ''''), (6, '' B64_IMAGE_END'')] + 2 \<le> 2000"
    by simp
  have p: "DATA_URL_PREFIX @ concat (map (trim \<circ> snd) [(1 :: rat, ''aGVs''), (2, ''''), (3, '' bG8= '')])
      = ''data:image/jpeg;base64,aGVsbG8=''"
    by code_simp
  from recomputed_image_agrees [OF h1 h2 h3 h4 h5] show ?thesis
    unfolding p by simp
qed

text \<open>
  C10 (as stated) fails. After a complete image \<open>abc\<close>, a capture that holds one blank line
  makes the feed emit an image with an empty payload, while the recomputation skips the blank
  line, finds no chunk and keeps \<open>abc\<close>. All six lines are in the console.
\<close>

theorem recomputed_image_differs_counterexample:
  "lastImageDataUrl (feed initialFeedState
      [(0, B64_IMAGE_START), (1, ''abc''), (2, B64_IMAGE_END),
       (3, B64_IMAGE_START), (4, ''''), (5, B64_IMAGE_END)])
     = Some ''data:image/jpeg;base64,''
   \<and> latestImageDataUrl (consoleLines (feed initialFeedState
      [(0, B64_IMAGE_START), (1, ''abc''), (2, B64_IMAGE_END),
       (3, B64_IMAGE_START), (4, ''''), (5, B64_IMAGE_END)]))
     = Some ''data:image/jpeg;base64,abc''"
  by code_simp

section \<open>Properties of field resolution and scaling\<close>

lemma exactLoop_find:
  "exactLoop obj names =
     (case find (\<lambda>n. n \<in> set (map fst obj)) names of
        None \<Rightarrow> None
      | Some n \<Rightarrow> Some (map_of obj n))"
  by (induction names) simp_all

lemma find_app:
  "find P (xs @ ys) = (case find P xs of None \<Rightarrow> find P ys | Some x \<Rightarrow> Some x)"
  by (induction xs) simp_all

lemma find_SomeD: "find P xs = Some x \<Longrightarrow> P x \<and> x \<in> set xs"
  by (induction xs) (auto split: if_splits)

lemma setAll_get:
  "setAll f keys m x =
     (case find (\<lambda>k. f k = x) (rev keys) of
        None \<Rightarrow> m x
      | Some k \<Rightarrow> Some k)"
proof (induction keys arbitrary: m)
  case Nil
  show ?case by simp
next
  case (Cons k keys)
  show ?case
    by (simp add: Cons.IH find_app split: option.split)
qed

lemma setAll_None: "setAll f keys Map.empty x = None \<longleftrightarrow> x \<notin> f ` set keys"
proof -
  have "setAll f keys Map.empty x = None \<longleftrightarrow> find (\<lambda>k. f k = x) (rev keys) = None"
    by (simp add: setAll_get split: option.split)
  also have "\<dots> \<longleftrightarrow> x \<notin> f ` set keys"
    by (auto simp: find_None_iff)
  finally show ?thesis .
qed

lemma setAll_Some:
  assumes "setAll f keys Map.empty x = Some k"
  shows "k \<in> set keys \<and> f k = x"
proof -
  from assms have "find (\<lambda>k. f k = x) (rev keys) = Some k"
    by (simp add: setAll_get split: option.splits)
  from find_SomeD [OF this] show ?thesis
    by simp
qed

lemma lookupLoop_find:
  "lookupLoop f (setAll f keys Map.empty) obj names =
     (case find (\<lambda>n. f n \<in> f ` set keys) names of
        None \<Rightarrow> None
      | Some n \<Rightarrow> Some (map_of obj (the (setAll f keys Map.empty (f n)))))"
proof (induction names)
  case Nil
  show ?case by simp
next
  case (Cons n names)
  show ?case
  proof (cases "setAll f keys Map.empty (f n)")
    case None
    then have "f n \<notin> f ` set keys" by (simp add: setAll_None)
    with None Cons.IH show ?thesis by simp
  next
    case (Some k)
    then have "f n \<in> f ` set keys" using setAll_None [of f keys "f n"] by simp
    with Some show ?thesis by simp
  qed
qed

lemma lookupLoop_hit:
  assumes "find (\<lambda>n. f n \<in> f ` set (map fst obj)) names = Some n"
  shows "\<exists>k \<in> set (map fst obj). f k = f n
           \<and> lookupLoop f (setAll f (map fst obj) Map.empty) obj names = Some (map_of obj k)"
proof -
  from find_SomeD [OF assms] have "f n \<in> f ` set (map fst obj)"
    by simp
  then obtain k where k: "setAll f (map fst obj) Map.empty (f n) = Some k"
    using setAll_None [of f "map fst obj" "f n"] by (cases "setAll f (map fst obj) Map.empty (f n)") auto
  from setAll_Some [OF k] have "k \<in> set (map fst obj)" "f k = f n" by simp_all
  moreover have "lookupLoop f (setAll f (map fst obj) Map.empty) obj names = Some (map_of obj k)"
    by (simp only: lookupLoop_find assms k option.case option.sel)
  ultimately show ?thesis by blast
qed

lemma getField_exact:
  assumes "find (\<lambda>n. n \<in> set (map fst obj)) names = Some n"
  shows "getField obj names = map_of obj n"
  using assms by (simp add: getField_def exactLoop_find)

lemma getField_lower:
  assumes "find (\<lambda>n. n \<in> set (map fst obj)) names = None"
    and "find (\<lambda>n. toLowerCase n \<in> toLowerCase ` set (map fst obj)) names = Some n"
  shows "\<exists>k \<in> set (map fst obj). toLowerCase k = toLowerCase n \<and> getField obj names = map_of obj k"
proof -
  from lookupLoop_hit [of toLowerCase obj names n, OF assms(2)]
  obtain k where "k \<in> set (map fst obj)" "toLowerCase k = toLowerCase n"
    "lookupLoop toLowerCase (setAll toLowerCase (map fst obj) Map.empty) obj names
       = Some (map_of obj k)" by blast
  then show ?thesis
    using assms(1) by (intro bexI [of _ k]) (simp_all add: getField_def exactLoop_find Let_def)
qed

lemma getField_norm:
  assumes "find (\<lambda>n. n \<in> set (map fst obj)) names = None"
    and "find (\<lambda>n. toLowerCase n \<in> toLowerCase ` set (map fst obj)) names = None"
    and "find (\<lambda>n. norm n \<in> norm ` set (map fst obj)) names = Some n"
  shows "\<exists>k \<in> set (map fst obj). norm k = norm n \<and> getField obj names = map_of obj k"
proof -
  from lookupLoop_hit [of norm obj names n, OF assms(3)]
  obtain k where "k \<in> set (map fst obj)" "norm k = norm n"
    "lookupLoop norm (setAll norm (map fst obj) Map.empty) obj names = Some (map_of obj k)"
    by blast
  then show ?thesis
    using assms(1,2)
    by (intro bexI [of _ k]) (simp_all add: getField_def exactLoop_find lookupLoop_find Let_def)
qed

lemma getField_miss:
  assumes "find (\<lambda>n. n \<in> set (map fst obj)) names = None"
    and "find (\<lambda>n. toLowerCase n \<in> toLowerCase ` set (map fst obj)) names = None"
    and "find (\<lambda>n. norm n \<in> norm ` set (map fst obj)) names = None"
  shows "getField obj names = None"
  using assms by (simp add: getField_def exactLoop_find lookupLoop_find Let_def)

lemma keys_of_map_of:
  assumes "map_of obj' = map_of obj"
  shows "set (map fst obj') = set (map fst obj)"
proof -
  have "dom (map_of obj') = dom (map_of obj)" using assms by simp
  then show ?thesis by (simp add: dom_map_of_conv_image_fst)
qed

text \<open>
  C9. \<open>getField\<close> returns the value of the first alias, in the order of the alias list,
  that is a key of the record, whatever later passes would match for earlier aliases. When no
  alias is a key, it returns the value of a key equal, case ignored, to the first alias that
  has such a key; when there is none either, the value of a key equal, separators stripped
  and case ignored, to the first alias that has such a key; and it is absent when no alias
  matches in any pass. With an exact match the result depends on the record as a map only,
  not on the order of its keys: a record with the keys \<open>v\<close> and \<open>V Esp\<close> resolves the
  aliases of \<open>vEsp\<close> to the value of \<open>V Esp\<close>, the first alias, in both key orders.
\<close>

theorem getField_passes_in_order:
  "(find (\<lambda>n. n \<in> set (map fst obj)) names = Some n \<longrightarrow> getField obj names = map_of obj n)
   \<and> (find (\<lambda>n. n \<in> set (map fst obj)) names = None
        \<and> find (\<lambda>n. toLowerCase n \<in> toLowerCase ` set (map fst obj)) names = Some n
      \<longrightarrow> (\<exists>k \<in> set (map fst obj). toLowerCase k = toLowerCase n
             \<and> getField obj names = map_of obj k))
   \<and> (find (\<lambda>n. n \<in> set (map fst obj)) names = None
        \<and> find (\<lambda>n. toLowerCase n \<in> toLowerCase ` set (map fst obj)) names = None
        \<and> find (\<lambda>n. norm n \<in> norm ` set (map fst obj)) names = Some n
      \<longrightarrow> (\<exists>k \<in> set (map fst obj). norm k = norm n \<and> getField obj names = map_of obj k))
   \<and> (find (\<lambda>n. n \<in> set (map fst obj)) names = None
        \<and> find (\<lambda>n. toLowerCase n \<in> toLowerCase ` set (map fst obj)) names = None
        \<and> find (\<lambda>n. norm n \<in> norm ` set (map fst obj)) names = None
      \<longrightarrow> getField obj names = None)
   \<and> (find (\<lambda>n. n \<in> set (map fst obj)) names = Some n \<and> map_of obj' = map_of obj
      \<longrightarrow> getField obj' names = getField obj names)
   \<and> getField [(''v'', a), (''V Esp'', b)] NAMES_vEsp = Some b
   \<and> getField [(''V Esp'', b), (''v'', a)] NAMES_vEsp = Some b"
proof (intro conjI impI)
  show "getField obj names = map_of obj n"
    if "find (\<lambda>n. n \<in> set (map fst obj)) names = Some n"
    using that by (rule getField_exact)
  show "\<exists>k \<in> set (map fst obj). toLowerCase k = toLowerCase n \<and> getField obj names = map_of obj k"
    if "find (\<lambda>n. n \<in> set (map fst obj)) names = None
        \<and> find (\<lambda>n. toLowerCase n \<in> toLowerCase ` set (map fst obj)) names = Some n"
    using that by (intro getField_lower) simp_all
  show "\<exists>k \<in> set (map fst obj). norm k = norm n \<and> getField obj names = map_of obj k"
    if "find (\<lambda>n. n \<in> set (map fst obj)) names = None
        \<and> find (\<lambda>n. toLowerCase n \<in> toLowerCase ` set (map fst obj)) names = None
        \<and> find (\<lambda>n. norm n \<in> norm ` set (map fst obj)) names = Some n"
    using that by (intro getField_norm) simp_all
  show "getField obj names = None"
    if "find (\<lambda>n. n \<in> set (map fst obj)) names = None
        \<and> find (\<lambda>n. toLowerCase n \<in> toLowerCase ` set (map fst obj)) names = None
        \<and> find (\<lambda>n. norm n \<in> norm ` set (map fst obj)) names = None"
    using that by (intro getField_miss) simp_all
  show "getField obj' names = getField obj names"
    if h: "find (\<lambda>n. n \<in> set (map fst obj)) names = Some n \<and> map_of obj' = map_of obj"
  proof -
    from h have "find (\<lambda>n. n \<in> set (map fst obj')) names = Some n"
      using keys_of_map_of [of obj' obj] by simp
    then have "getField obj' names = map_of obj' n" by (rule getField_exact)
    moreover from h have "getField obj names = map_of obj n" by (intro getField_exact) simp
    ultimately show ?thesis using h by simp
  qed
  have f1: "find (\<lambda>n. n \<in> set (map fst [(''v'', a), (''V Esp'', b)])) NAMES_vEsp = Some ''V Esp''"
    by (simp add: NAMES_vEsp_def)
  from getField_exact [OF f1] show "getField [(''v'', a), (''V Esp'', b)] NAMES_vEsp = Some b"
    by simp
  have f2: "find (\<lambda>n. n \<in> set (map fst [(''V Esp'', b), (''v'', a)])) NAMES_vEsp = Some ''V Esp''"
    by (simp add: NAMES_vEsp_def)
  from getField_exact [OF f2] show "getField [(''V Esp'', b), (''v'', a)] NAMES_vEsp = Some b"
    by simp
qed


theorem getField_passes_in_order_witness:
  "getField [(''v'', 1 :: nat), (''V Esp'', 2)] NAMES_vEsp = Some 2
   \<and> getField [(''V ESP'', 7 :: nat)] NAMES_vEsp = Some 7
   \<and> getField [(''v-esp'', 9 :: nat)] NAMES_vEsp = Some 9
   \<and> getField [(''foo'', 1 :: nat)] NAMES_vEsp = None
   \<and> getField [(''V Esp'', 2), (''v'', 1 :: nat)] NAMES_vEsp
       = getField [(''v'', 1), (''V Esp'', 2)] NAMES_vEsp"
proof -
  note T = getField_passes_in_order
  have e1: "find (\<lambda>n. n \<in> set (map fst [(''v'', 1 :: nat), (''V Esp'', 2)])) NAMES_vEsp
      = Some ''V Esp''"
    by (simp add: NAMES_vEsp_def)
  from T [of "[(''v'', 1 :: nat), (''V Esp'', 2)]" NAMES_vEsp "''V Esp''", THEN conjunct1] e1
  have c1: "getField [(''v'', 1 :: nat), (''V Esp'', 2)] NAMES_vEsp = Some 2"
    by simp
  have e2: "find (\<lambda>n. n \<in> set (map fst [(''V ESP'', 7 :: nat)])) NAMES_vEsp = None
      \<and> find (\<lambda>n. toLowerCase n \<in> toLowerCase ` set (map fst [(''V ESP'', 7 :: nat)])) NAMES_vEsp
          = Some ''V Esp''"
    by code_simp
  from T [of "[(''V ESP'', 7 :: nat)]" NAMES_vEsp "''V Esp''",
      THEN conjunct2, THEN conjunct1, THEN mp, OF e2]
  have c2: "getField [(''V ESP'', 7 :: nat)] NAMES_vEsp = Some 7"
    by simp
  have e3: "find (\<lambda>n. n \<in> set (map fst [(''v-esp'', 9 :: nat)])) NAMES_vEsp = None
      \<and> find (\<lambda>n. toLowerCase n \<in> toLowerCase ` set (map fst [(''v-esp'', 9 :: nat)])) NAMES_vEsp
          = None
      \<and> find (\<lambda>n. norm n \<in> norm ` set (map fst [(''v-esp'', 9 :: nat)])) NAMES_vEsp
          = Some ''V Esp''"
    by code_simp
  from T [of "[(''v-esp'', 9 :: nat)]" NAMES_vEsp "''V Esp''",
      THEN conjunct2, THEN conjunct2, THEN conjunct1, THEN mp, OF e3]
  have c3: "getField [(''v-esp'', 9 :: nat)] NAMES_vEsp = Some 9"
    by simp
  have e4: "find (\<lambda>n. n \<in> set (map fst [(''foo'', 1 :: nat)])) NAMES_vEsp = None
      \<and> find (\<lambda>n. toLowerCase n \<in> toLowerCase ` set (map fst [(''foo'', 1 :: nat)])) NAMES_vEsp
          = None
      \<and> find (\<lambda>n. norm n \<in> norm ` set (map fst [(''foo'', 1 :: nat)])) NAMES_vEsp = None"
    by code_simp
  from T [of "[(''foo'', 1 :: nat)]" NAMES_vEsp,
      THEN conjunct2, THEN conjunct2, THEN conjunct2, THEN conjunct1, THEN mp, OF e4]
  have c4: "getField [(''foo'', 1 :: nat)] NAMES_vEsp = None" .
  have m: "map_of [(''V Esp'', 2), (''v'', 1 :: nat)] = map_of [(''v'', 1), (''V Esp'', 2)]"
    by (rule ext) simp
  from T [of "[(''v'', 1 :: nat), (''V Esp'', 2)]" NAMES_vEsp "''V Esp''"
        "[(''V Esp'', 2), (''v'', 1 :: nat)]",
      THEN conjunct2, THEN conjunct2, THEN conjunct2, THEN conjunct2, THEN conjunct1, THEN mp,
      OF conjI, OF e1 m]
  have c5: "getField [(''V Esp'', 2), (''v'', 1 :: nat)] NAMES_vEsp
       = getField [(''v'', 1), (''V Esp'', 2)] NAMES_vEsp" .
  from c1 c2 c3 c4 c5 show ?thesis by (intro conjI)
qed












end
